theory Spec2Isabelle
  imports Main "HOL-Library.Word" "HOL-Library.AList" "HOL-Library.Multiset"
begin

unbundle bit_operations_syntax

section \<open>Go runtime notions used by the package\<close>

text \<open>
  A Go string is a sequence of bytes, here a \<^typ>\<open>string\<close>.  A statement that can
  panic (a slice expression or an index out of range) returns \<open>Panics\<close>; everything
  else returns its value.
\<close>

datatype 'a outcome = Returns 'a | Panics

definition byte :: "char \<Rightarrow> nat" where
  "byte c = of_char c"

definition index_at :: "'a list \<Rightarrow> nat \<Rightarrow> 'a outcome" where
  \<comment> \<open>\<open>xs[i]\<close>: panics when \<open>i\<close> is out of range.\<close>
  "index_at xs i = (if i < length xs then Returns (xs ! i) else Panics)"

subsection \<open>Package \<open>unicode/utf8\<close>\<close>

definition RuneError :: nat where
  "RuneError = 0xFFFD"

definition RuneSelf :: nat where
  "RuneSelf = 0x80"

definition UTFMax :: nat where
  "UTFMax = 4"

definition locb :: nat where
  "locb = 0x80"

definition hicb :: nat where
  "hicb = 0xBF"

definition first_byte :: "nat \<Rightarrow> (nat \<times> nat \<times> nat) option" where
  \<comment> \<open>The table \<open>first\<close> joined with \<open>acceptRanges\<close>: for a leading byte of a
      multi-byte sequence, the sequence's size and the range accepted for its
      second byte; \<open>None\<close> for the entries \<open>xx\<close> (invalid leading byte).\<close>
  "first_byte b =
     (if 0xC2 \<le> b \<and> b \<le> 0xDF then Some (2, locb, hicb)
      else if b = 0xE0 then Some (3, 0xA0, hicb)
      else if 0xE1 \<le> b \<and> b \<le> 0xEC then Some (3, locb, hicb)
      else if b = 0xED then Some (3, locb, 0x9F)
      else if 0xEE \<le> b \<and> b \<le> 0xEF then Some (3, locb, hicb)
      else if b = 0xF0 then Some (4, 0x90, hicb)
      else if 0xF1 \<le> b \<and> b \<le> 0xF3 then Some (4, locb, hicb)
      else if b = 0xF4 then Some (4, locb, 0x8F)
      else None)"

definition DecodeRuneInString :: "string \<Rightarrow> nat \<times> nat" where
  \<comment> \<open>The first rune of \<open>s\<close> and its width in bytes; \<open>(RuneError, 1)\<close> on an
      invalid encoding, \<open>(RuneError, 0)\<close> on the empty string.\<close>
  "DecodeRuneInString s =
     (let n = length s in
      if n < 1 then (RuneError, 0)
      else
        let s0 = byte (s ! 0) in
        if s0 < RuneSelf then (s0, 1)
        else
          case first_byte s0 of
            None \<Rightarrow> (RuneError, 1)
          | Some (sz, lo, hi) \<Rightarrow>
              if n < sz then (RuneError, 1)
              else
                let s1 = byte (s ! 1) in
                if s1 < lo \<or> hi < s1 then (RuneError, 1)
                else if sz \<le> 2 then (push_bit 6 (s0 AND 0x1F) OR (s1 AND 0x3F), 2)
                else
                  let s2 = byte (s ! 2) in
                  if s2 < locb \<or> hicb < s2 then (RuneError, 1)
                  else if sz \<le> 3 then
                    (push_bit 12 (s0 AND 0x0F) OR push_bit 6 (s1 AND 0x3F) OR (s2 AND 0x3F), 3)
                  else
                    let s3 = byte (s ! 3) in
                    if s3 < locb \<or> hicb < s3 then (RuneError, 1)
                    else
                      (push_bit 18 (s0 AND 0x07) OR push_bit 12 (s1 AND 0x3F)
                         OR push_bit 6 (s2 AND 0x3F) OR (s3 AND 0x3F), 4))"

definition RuneStart :: "nat \<Rightarrow> bool" where
  "RuneStart b = (b AND 0xC0 \<noteq> 0x80)"

function back_scan :: "string \<Rightarrow> int \<Rightarrow> int \<Rightarrow> int" where
  \<comment> \<open>\<open>for start--; start >= lim; start-- { if RuneStart(s[start]) { break } }\<close>,
      entered after the first decrement.\<close>
  "back_scan s lim start =
     (if lim \<le> start then
        (if RuneStart (byte (s ! nat start)) then start else back_scan s lim (start - 1))
      else start)"
  by pat_completeness auto
termination
  by (relation "measure (\<lambda>(s, lim, start). nat (start - lim + 1))") auto

definition DecodeLastRuneInString :: "string \<Rightarrow> nat \<times> nat" where
  "DecodeLastRuneInString s =
     (let end = int (length s) in
      if end = 0 then (RuneError, 0)
      else
        let start = end - 1;
            r = byte (s ! nat start) in
        if r < RuneSelf then (r, 1)
        else
          let lim = (if end - int UTFMax < 0 then 0 else end - int UTFMax);
              start = back_scan s lim (start - 1);
              start = (if start < 0 then 0 else start);
              (r, wid) = DecodeRuneInString (drop (nat start) s)
          in if start + int wid \<noteq> end then (RuneError, 1) else (r, wid))"

subsection \<open>Package \<open>unicode\<close>\<close>

definition IsSpace :: "nat \<Rightarrow> bool" where
  "IsSpace r =
     (if r \<le> 0xFF then r \<in> set [0x09, 0x0A, 0x0B, 0x0C, 0x0D, 0x20, 0x85, 0xA0]
      else r = 0x1680 \<or> (0x2000 \<le> r \<and> r \<le> 0x200A) \<or> r = 0x2028 \<or> r = 0x2029
           \<or> r = 0x202F \<or> r = 0x205F \<or> r = 0x3000)"

subsection \<open>Package \<open>strings\<close>\<close>

definition asciiSpace :: "nat \<Rightarrow> bool" where
  "asciiSpace b = (b \<in> set [0x09, 0x0A, 0x0B, 0x0C, 0x0D, 0x20])"

function indexFunc_loop :: "(nat \<Rightarrow> bool) \<Rightarrow> bool \<Rightarrow> string \<Rightarrow> nat \<Rightarrow> int" where
  \<comment> \<open>\<open>for i, r := range s { if f(r) == truth { return i } }; return -1\<close>, with
      \<open>rest\<close> the bytes from offset \<open>i\<close> on.\<close>
  "indexFunc_loop f truth rest i =
     (if rest = [] then - 1
      else
        let (r, w) = DecodeRuneInString rest in
        if f r = truth then int i
        else indexFunc_loop f truth (drop w rest) (i + w))"
  by pat_completeness auto
termination
proof (relation "measure (\<lambda>(f, truth, rest, i). length rest)")
  fix f :: "nat \<Rightarrow> bool" and truth :: bool and rest :: string and i :: nat
    and x :: "nat \<times> nat" and r w :: nat
  assume ne: "rest \<noteq> []" and x: "x = DecodeRuneInString rest" and rw: "(r, w) = x"
  have "0 < snd (DecodeRuneInString rest)"
    using ne unfolding DecodeRuneInString_def Let_def
    by (simp split: option.split prod.split)
  with x rw have "0 < w"
    by (cases "DecodeRuneInString rest") simp
  with ne
  show "((f, truth, drop w rest, i + w), (f, truth, rest, i))
          \<in> measure (\<lambda>(f, truth, rest, i). length rest)"
    by simp
qed simp

definition indexFunc :: "string \<Rightarrow> (nat \<Rightarrow> bool) \<Rightarrow> bool \<Rightarrow> int" where
  "indexFunc s f truth = indexFunc_loop f truth s 0"

function lastIndexFunc_loop :: "(nat \<Rightarrow> bool) \<Rightarrow> bool \<Rightarrow> string \<Rightarrow> int" where
  \<comment> \<open>\<open>for i := len(s); i > 0; { r, size := DecodeLastRuneInString(s[0:i]); i -= size;
      if f(r) == truth { return i } }; return -1\<close>, with \<open>pre = s[0:i]\<close>.\<close>
  "lastIndexFunc_loop f truth pre =
     (if pre = [] then - 1
      else
        let (r, wid) = DecodeLastRuneInString pre;
            i = length pre - wid
        in if f r = truth then int i else lastIndexFunc_loop f truth (take i pre))"
  by pat_completeness auto
termination
proof (relation "measure (\<lambda>(f, truth, pre). length pre)")
  fix f :: "nat \<Rightarrow> bool" and truth :: bool and pre :: string and x :: "nat \<times> nat"
    and r wid xa :: nat
  assume ne: "pre \<noteq> []" and x: "x = DecodeLastRuneInString pre" and rw: "(r, wid) = x"
    and xa: "xa = length pre - wid"
  have scan: "back_scan s lim start \<le> start" for s lim start
  proof (induction s lim start rule: back_scan.induct)
    case (1 s lim start)
    show ?case
    proof (cases "lim \<le> start \<and> \<not> RuneStart (byte (s ! nat start))")
      case True
      then have "back_scan s lim start = back_scan s lim (start - 1)"
        by (subst back_scan.simps) simp
      with 1 True show ?thesis by simp
    next
      case False
      then have "back_scan s lim start = start"
        by (subst back_scan.simps) auto
      then show ?thesis by simp
    qed
  qed
  have dec: "0 < snd (DecodeRuneInString s)" if "s \<noteq> []" for s
    using that unfolding DecodeRuneInString_def Let_def
    by (simp split: option.split prod.split)
  define e where "e = int (length pre)"
  define lim where "lim = (if e - int UTFMax < 0 then 0 else e - int UTFMax)"
  define b where "b = back_scan pre lim (e - 1 - 1)"
  define st where "st = (if b < 0 then 0 else b)"
  have "b \<le> e - 1 - 1"
    unfolding b_def by (rule scan)
  then have "st < e"
    using ne by (simp add: st_def e_def)
  moreover have "0 \<le> st"
    by (simp add: st_def)
  ultimately have "drop (nat st) pre \<noteq> []"
    by (simp add: e_def le_nat_iff)
  then have w: "0 < snd (DecodeRuneInString (drop (nat st) pre))"
    by (rule dec)
  have "DecodeLastRuneInString pre =
      (if byte (pre ! nat (e - 1)) < RuneSelf then (byte (pre ! nat (e - 1)), 1)
       else case DecodeRuneInString (drop (nat st) pre) of
              (r, wid) \<Rightarrow> if st + int wid \<noteq> e then (RuneError, 1) else (r, wid))"
    using ne unfolding DecodeLastRuneInString_def Let_def e_def lim_def b_def st_def
    by simp
  with w have "0 < snd (DecodeLastRuneInString pre)"
    by (cases "DecodeRuneInString (drop (nat st) pre)") simp
  with x rw have "0 < wid"
    by (cases "DecodeLastRuneInString pre") simp
  with ne xa
  show "((f, truth, take xa pre), (f, truth, pre)) \<in> measure (\<lambda>(f, truth, pre). length pre)"
    by simp
qed simp

definition lastIndexFunc :: "string \<Rightarrow> (nat \<Rightarrow> bool) \<Rightarrow> bool \<Rightarrow> int" where
  "lastIndexFunc s f truth = lastIndexFunc_loop f truth s"

definition TrimLeftFunc :: "string \<Rightarrow> (nat \<Rightarrow> bool) \<Rightarrow> string" where
  "TrimLeftFunc s f =
     (let i = indexFunc s f False in if i = - 1 then [] else drop (nat i) s)"

definition TrimRightFunc :: "string \<Rightarrow> (nat \<Rightarrow> bool) \<Rightarrow> string" where
  "TrimRightFunc s f =
     (let i = lastIndexFunc s f False;
          i = (if 0 \<le> i \<and> RuneSelf \<le> byte (s ! nat i)
               then i + int (snd (DecodeRuneInString (drop (nat i) s)))
               else i + 1)
      in take (nat i) s)"

definition TrimFunc :: "string \<Rightarrow> (nat \<Rightarrow> bool) \<Rightarrow> string" where
  "TrimFunc s f = TrimRightFunc (TrimLeftFunc s f) f"

function trim_stop :: "string \<Rightarrow> string" where
  \<comment> \<open>The second loop of \<open>TrimSpace\<close>, on \<open>s[start:]\<close>: the last ASCII byte that
      is no space ends the result; a byte from \<open>RuneSelf\<close> on hands over to
      \<open>TrimRightFunc\<close>.\<close>
  "trim_stop s =
     (if s = [] then []
      else
        let c = byte (last s) in
        if RuneSelf \<le> c then TrimRightFunc s IsSpace
        else if asciiSpace c then trim_stop (butlast s)
        else s)"
  by pat_completeness auto
termination
  by (relation "measure length") auto

fun TrimSpace :: "string \<Rightarrow> string" where
  \<comment> \<open>The first loop of \<open>TrimSpace\<close>: skip ASCII spaces; a byte from \<open>RuneSelf\<close>
      on hands the rest over to \<open>TrimFunc\<close>.\<close>
  "TrimSpace [] = trim_stop []"
| "TrimSpace (c # cs) =
     (if RuneSelf \<le> byte c then TrimFunc (c # cs) IsSpace
      else if asciiSpace (byte c) then TrimSpace cs
      else trim_stop (c # cs))"

function Split :: "string \<Rightarrow> char \<Rightarrow> string list" where
  \<comment> \<open>\<open>strings.Split(s, sep)\<close> for a separator of one byte: the substrings
      between the separators, one more than there are separators.\<close>
  "Split s sep =
     (if sep \<in> set s
      then takeWhile (\<lambda>c. c \<noteq> sep) s # Split (tl (dropWhile (\<lambda>c. c \<noteq> sep) s)) sep
      else [s])"
  by pat_completeness auto
termination
proof (relation "measure (\<lambda>(s, sep). length s)")
  fix s :: string and sep :: char
  assume "sep \<in> set s"
  then have "dropWhile (\<lambda>c. c \<noteq> sep) s \<noteq> []"
    by simp
  then have "length (tl (dropWhile (\<lambda>c. c \<noteq> sep) s)) < length (dropWhile (\<lambda>c. c \<noteq> sep) s)"
    by simp
  also have "\<dots> \<le> length s"
    by (rule length_dropWhile_le)
  finally show "((tl (dropWhile (\<lambda>c. c \<noteq> sep) s), sep), (s, sep)) \<in> measure (\<lambda>(s, sep). length s)"
    by simp
qed simp

subsection \<open>Package \<open>fmt\<close>\<close>

definition digit_char :: "nat \<Rightarrow> char" where
  "digit_char d = char_of (48 + d)"

function decimal :: "nat \<Rightarrow> string" where
  "decimal n = (if n < 10 then [digit_char n] else decimal (n div 10) @ [digit_char (n mod 10)])"
  by pat_completeness auto
termination
  by (relation "measure id") auto

definition Sprintf_02d_s :: "nat \<Rightarrow> string \<Rightarrow> string" where
  \<comment> \<open>\<open>fmt.Sprintf("%02d:%s", idx, s)\<close> for \<open>idx \<ge> 0\<close>: the decimal digits of
      \<open>idx\<close>, padded with zeros on the left to two digits, a colon, and \<open>s\<close>.\<close>
  "Sprintf_02d_s idx s =
     (let ds = decimal idx in replicate (2 - length ds) CHR ''0'' @ ds @ '':'' @ s)"

section \<open>The encoder: \<open>create.split\<close> and \<open>CreateRecord\<close>\<close>

datatype error = ErrInvalidJWT | ErrInvalidInput

record create =
  maxSize :: int
  maxLineLength :: int

partial_function (option) split_loop ::
  "create \<Rightarrow> string \<Rightarrow> string list \<Rightarrow> nat \<Rightarrow> nat \<Rightarrow> (string list \<times> nat) outcome option" where
  \<comment> \<open>The loop of \<open>split\<close> with its variables \<open>buf\<close>, \<open>result\<close>, \<open>n\<close> and \<open>idx\<close>.
      \<open>None\<close> is a loop that never ends; \<open>Some Panics\<close> is the slice expression
      \<open>buf[:max]\<close> out of range, which here can only be \<open>max < 0\<close>: the line before
      it keeps \<open>max\<close> at or below \<open>len(buf)\<close>.\<close>
  "split_loop c buf result n idx =
     (if 0 < length buf then
        let max = (if 999 < length result then maxLineLength c - 5
                   else if 99 < length result then maxLineLength c - 4
                   else maxLineLength c - 3);
            max = (if int (length buf) < max then int (length buf) else max)
        in if max < 0 \<or> int (length buf) < max then Some Panics
           else
             let s = take (nat max) buf;
                 buf = drop (nat max) buf;
                 line = Sprintf_02d_s idx s
             in split_loop c buf (result @ [line]) (n + length line) (idx + 1)
      else Some (Returns (result, n)))"

declare split_loop.simps [code]

definition split :: "create \<Rightarrow> string \<Rightarrow> (string list \<times> nat) outcome option" where
  "split c buf = split_loop c buf [] 0 0"

datatype CreateOption = WithMaxLineLength int | WithMaxSize int

fun apply_option :: "CreateOption \<Rightarrow> create \<Rightarrow> create" where
  "apply_option (WithMaxLineLength len) c =
     c\<lparr>maxLineLength := (if len \<le> 0 \<or> 254 < len then 254 else len)\<rparr>"
| "apply_option (WithMaxSize sz) c =
     c\<lparr>maxSize := (if sz \<le> 0 \<or> 65270 < sz then 15 * 1024 else sz)\<rparr>"

fun apply_all :: "CreateOption option list \<Rightarrow> create \<Rightarrow> create" where
  \<comment> \<open>\<open>for _, opt := range opts { if opt != nil { opt.apply(&c) } }\<close>\<close>
  "apply_all [] c = c"
| "apply_all (None # opts) c = apply_all opts c"
| "apply_all (Some opt # opts) c = apply_all opts (apply_option opt c)"

definition configure :: "CreateOption option list \<Rightarrow> create" where
  \<comment> \<open>The first half of \<open>CreateRecord\<close>: the zero value of \<open>create\<close> with the
      defaults and then the caller's options applied.\<close>
  "configure opts =
     apply_all ([Some (WithMaxSize 0), Some (WithMaxLineLength 0)] @ opts)
       \<lparr>maxSize = 0, maxLineLength = 0\<rparr>"

definition CreateRecord ::
  "string \<Rightarrow> CreateOption option list \<Rightarrow> (string list \<times> error option) outcome option" where
  \<comment> \<open>The result is Go's pair \<open>([]string, error)\<close>: a nil slice is \<open>[]\<close>, a nil
      error is \<open>None\<close>.\<close>
  "CreateRecord jwt opts =
     (let c = configure opts in
      case split c jwt of
        None \<Rightarrow> None
      | Some Panics \<Rightarrow> Some Panics
      | Some (Returns (lines, n)) \<Rightarrow>
          if maxSize c < int n then Some (Returns ([], Some ErrInvalidInput))
          else Some (Returns (lines, None)))"

section \<open>The decoder: \<open>reassemble\<close> and \<open>getIndexInt\<close>\<close>

definition digit_rune :: "nat \<Rightarrow> bool" where
  \<comment> \<open>\<open>case '0', '1', '2', '3', '4', '5', '6', '7', '8', '9'\<close>\<close>
  "digit_rune c = (c \<in> set [0x30, 0x31, 0x32, 0x33, 0x34, 0x35, 0x36, 0x37, 0x38, 0x39])"

function getIndexInt_loop :: "64 word \<Rightarrow> string \<Rightarrow> 64 word" where
  \<comment> \<open>\<open>for _, c := range s\<close> decodes one rune at a time; \<open>n\<close> is a Go \<open>int\<close>
      (64 bits, wrapping).\<close>
  "getIndexInt_loop n s =
     (if s = [] then n
      else
        let (c, w) = DecodeRuneInString s in
        if digit_rune c
        then getIndexInt_loop (n * 10 + of_nat (c - 0x30)) (drop w s)
        else - 1)"
  by pat_completeness auto
termination
proof (relation "measure (\<lambda>(n, s). length s)")
  fix n :: "64 word" and s :: string and x :: "nat \<times> nat" and c w :: nat
  assume ne: "s \<noteq> []" and x: "x = DecodeRuneInString s" and cw: "(c, w) = x"
  have "0 < snd (DecodeRuneInString s)"
    using ne unfolding DecodeRuneInString_def Let_def
    by (simp split: option.split prod.split)
  with x cw have "0 < w"
    by (cases "DecodeRuneInString s") simp
  with ne show "((n * 10 + word_of_nat (c - 0x30), drop w s), (n, s)) \<in> measure (\<lambda>(n, s). length s)"
    by simp
qed simp

definition getIndexInt :: "string \<Rightarrow> int" where
  "getIndexInt s = sint (getIndexInt_loop 0 (TrimSpace s))"

fun collect :: "(int \<times> string) list \<Rightarrow> string list \<Rightarrow> (int \<times> string) list outcome" where
  \<comment> \<open>The first loop of \<open>reassemble\<close>.  The Go map \<open>parts\<close> is an association list
      with one entry per key: \<open>map_of\<close> reads it, \<open>AList.update\<close> writes it and its
      length is \<open>len(parts)\<close>.\<close>
  "collect parts [] = Returns parts"
| "collect parts (line # lines) =
     (let segments = Split line CHR '':'' in
      if length segments \<noteq> 2 then collect parts lines
      else
        case index_at segments 0 of
          Panics \<Rightarrow> Panics
        | Returns seg0 \<Rightarrow>
            let n = getIndexInt seg0 in
            if n < 0 then collect parts lines
            else
              case index_at segments 1 of
                Panics \<Rightarrow> Panics
              | Returns seg1 \<Rightarrow>
                  let txt = TrimSpace seg1 in
                  collect (AList.update n txt parts) lines)"

function join_loop :: "(int \<times> string) list \<Rightarrow> nat \<Rightarrow> string \<Rightarrow> string" where
  \<comment> \<open>The second loop of \<open>reassemble\<close>, with the builder's content \<open>buf\<close>.\<close>
  "join_loop parts i buf =
     (if i < length parts then
        (case map_of parts (int i) of
           None \<Rightarrow> []
         | Some val \<Rightarrow> join_loop parts (Suc i) (buf @ val))
      else buf)"
  by pat_completeness auto
termination
  by (relation "measure (\<lambda>(parts, i, buf). length parts - i)") auto

definition reassemble :: "string list \<Rightarrow> string outcome" where
  "reassemble lines =
     (case collect [(0, [])] lines of
        Panics \<Rightarrow> Panics
      | Returns parts \<Rightarrow> Returns (join_loop parts 0 []))"

section \<open>Auxiliary notions\<close>

fun frames :: "nat \<Rightarrow> string list \<Rightarrow> string list" where
  \<comment> \<open>The lines that \<open>split\<close> writes for the chunks \<open>chunks\<close> of the payload when the
      first of them gets the index \<open>idx\<close>.\<close>
  "frames idx [] = []"
| "frames idx (chunk # chunks) = Sprintf_02d_s idx chunk # frames (Suc idx) chunks"

definition frame_index :: "string \<Rightarrow> int" where
  \<comment> \<open>The index \<open>reassemble\<close> reads from a line: \<open>getIndexInt(segments[0])\<close>.
      \<open>Split\<close> never returns an empty list, so the element exists.\<close>
  "frame_index line = getIndexInt (Split line CHR '':'' ! 0)"

definition frame_text :: "string \<Rightarrow> string" where
  \<comment> \<open>The payload \<open>reassemble\<close> reads from a line with two segments:
      \<open>strings.TrimSpace(segments[1])\<close>.\<close>
  "frame_text line = TrimSpace (Split line CHR '':'' ! 1)"

definition accepted :: "string \<Rightarrow> bool" where
  \<comment> \<open>The lines the first loop of \<open>reassemble\<close> does not skip.\<close>
  "accepted line = (length (Split line CHR '':'') = 2 \<and> 0 \<le> frame_index line)"

definition store_line :: "(int \<times> string) list \<Rightarrow> string \<Rightarrow> (int \<times> string) list" where
  \<comment> \<open>What one iteration of the first loop of \<open>reassemble\<close> does to \<open>parts\<close>.\<close>
  "store_line parts line =
     (if accepted line then AList.update (frame_index line) (frame_text line) parts else parts)"

definition entries :: "string list \<Rightarrow> (int \<times> string) list" where
  \<comment> \<open>The index and payload of every accepted line, in the order of the lines.\<close>
  "entries lines = map (\<lambda>l. (frame_index l, frame_text l)) (filter accepted lines)"

definition assemble :: "(int \<rightharpoonup> string) \<Rightarrow> string" where
  \<comment> \<open>The second loop of \<open>reassemble\<close> as a function of the map that \<open>parts\<close>
      holds: the payloads at \<open>0, \<dots>, len(parts) - 1\<close> in order, or the empty
      string when one of these indices is absent.\<close>
  "assemble m =
     (if \<forall>j < card (dom m). m (int j) \<noteq> None
      then concat (map (\<lambda>j. the (m (int j))) [0..<card (dom m)])
      else [])"

text \<open>
  The recursive equations of the loops are unfolded by hand where a proof needs them.
\<close>

declare back_scan.simps [simp del]
declare indexFunc_loop.simps [simp del]
declare lastIndexFunc_loop.simps [simp del]
declare trim_stop.simps [simp del]
declare TrimSpace.simps [simp del]
declare Split.simps [simp del]
declare decimal.simps [simp del]
declare getIndexInt_loop.simps [simp del]
declare join_loop.simps [simp del]

section \<open>Facts about the library functions\<close>

lemma Split_no_sep: "sep \<notin> set s \<Longrightarrow> Split s sep = [s]"
  by (subst Split.simps) simp

lemma takeWhile_upto_sep: "sep \<notin> set a \<Longrightarrow> takeWhile (\<lambda>c. c \<noteq> sep) (a @ sep # b) = a"
  by (induction a) auto

lemma dropWhile_upto_sep: "sep \<notin> set a \<Longrightarrow> dropWhile (\<lambda>c. c \<noteq> sep) (a @ sep # b) = sep # b"
  by (induction a) auto

lemma Split_at_sep:
  "sep \<notin> set a \<Longrightarrow> Split (a @ sep # b) sep = a # Split b sep"
  by (subst Split.simps) (simp add: takeWhile_upto_sep dropWhile_upto_sep)

lemma length_Split: "length (Split s sep) = Suc (count_list s sep)"
proof (induction s sep rule: Split.induct)
  case (1 s sep)
  show ?case
  proof (cases "sep \<in> set s")
    case True
    then obtain a b where s: "s = a @ sep # b" and a: "sep \<notin> set a"
      by (meson split_list_first)
    have tw: "takeWhile (\<lambda>c. c \<noteq> sep) s = a" and dw: "tl (dropWhile (\<lambda>c. c \<noteq> sep) s) = b"
      using a by (simp_all add: s takeWhile_upto_sep dropWhile_upto_sep)
    have "length (Split s sep) = Suc (length (Split b sep))"
      using True by (subst Split.simps) (simp add: dw)
    also have "length (Split b sep) = Suc (count_list b sep)"
      using 1 [OF True] by (simp add: dw)
    finally show ?thesis
      using a by (simp add: s count_list_0_iff)
  next
    case False
    then show ?thesis
      by (subst Split.simps) (simp add: count_list_0_iff)
  qed
qed

section \<open>Facts about the decoder\<close>

subsection \<open>The two loops of \<open>reassemble\<close>\<close>

lemma collect_step: "collect parts (line # lines) = collect (store_line parts line) lines"
  by (simp add: store_line_def accepted_def frame_index_def frame_text_def index_at_def Let_def)

lemma collect_foldl: "collect parts lines = Returns (foldl store_line parts lines)"
proof (induction lines arbitrary: parts)
  case Nil
  show ?case by simp
next
  case (Cons line lines)
  show ?case
    unfolding collect_step by (simp add: Cons.IH)
qed

lemma reassemble_eq:
  "reassemble lines = Returns (join_loop (foldl store_line [(0, [])] lines) 0 [])"
  by (simp add: reassemble_def collect_foldl)

lemma distinct_store_line: "distinct (map fst parts) \<Longrightarrow> distinct (map fst (store_line parts line))"
  by (simp add: store_line_def distinct_update)

lemma distinct_foldl_store:
  "distinct (map fst parts) \<Longrightarrow> distinct (map fst (foldl store_line parts lines))"
  by (induction lines arbitrary: parts) (simp_all add: distinct_store_line)

lemma join_loop_missing:
  "i \<le> j \<Longrightarrow> j < length parts \<Longrightarrow> map_of parts (int j) = None \<Longrightarrow> join_loop parts i buf = []"
proof (induction parts i buf rule: join_loop.induct)
  case (1 parts i buf)
  show ?case
  proof (cases "map_of parts (int i)")
    case None
    with "1.prems" show ?thesis
      by (subst join_loop.simps) simp
  next
    case (Some v)
    with "1.prems" have "i \<noteq> j"
      by auto
    with "1.prems" have *: "Suc i \<le> j" "i < length parts"
      by simp_all
    have "join_loop parts (Suc i) (buf @ v) = []"
      using "1.IH" [OF *(2) Some *(1)] "1.prems" by simp
    with * Some show ?thesis
      by (subst join_loop.simps) simp
  qed
qed

lemma join_loop_complete:
  "(\<And>j. i \<le> j \<Longrightarrow> j < length parts \<Longrightarrow> map_of parts (int j) \<noteq> None) \<Longrightarrow>
     join_loop parts i buf = buf @ concat (map (\<lambda>j. the (map_of parts (int j))) [i..<length parts])"
proof (induction parts i buf rule: join_loop.induct)
  case (1 parts i buf)
  show ?case
  proof (cases "i < length parts")
    case True
    with "1.prems" [of i] obtain v where v: "map_of parts (int i) = Some v"
      by auto
    have "join_loop parts (Suc i) (buf @ v)
            = (buf @ v) @ concat (map (\<lambda>j. the (map_of parts (int j))) [Suc i..<length parts])"
      using True v "1.prems" by (intro "1.IH") simp_all
    with True v show ?thesis
      by (subst join_loop.simps) (simp add: upt_conv_Cons)
  next
    case False
    then show ?thesis
      by (subst join_loop.simps) simp
  qed
qed

lemma map_of_store_line:
  "map_of (store_line parts line)
     = (if accepted line then (map_of parts)(frame_index line \<mapsto> frame_text line) else map_of parts)"
  by (simp add: store_line_def update_conv')

lemma map_of_foldl_store:
  "map_of (foldl store_line parts lines) = map_of parts ++ map_of (rev (entries lines))"
proof (induction lines arbitrary: parts)
  case Nil
  show ?case by (simp add: entries_def)
next
  case (Cons l ls)
  show ?case
  proof (cases "accepted l")
    case True
    have "map_of (foldl store_line parts (l # ls))
            = map_of (store_line parts l) ++ map_of (rev (entries ls))"
      by (simp only: foldl_Cons Cons.IH)
    also have "\<dots> = (map_of parts)(frame_index l \<mapsto> frame_text l) ++ map_of (rev (entries ls))"
      by (simp only: map_of_store_line True if_True)
    also have "\<dots> = map_of parts ++ (map_of (rev (entries ls) @ [(frame_index l, frame_text l)]))"
      by (simp add: fun_eq_iff map_add_def split: option.split)
    finally show ?thesis
      using True by (simp add: entries_def)
  next
    case False
    then show ?thesis
      by (simp add: Cons.IH map_of_store_line entries_def)
  qed
qed

lemma length_parts_card:
  "distinct (map fst parts) \<Longrightarrow> length parts = card (dom (map_of parts))"
  by (metis distinct_card dom_map_of_conv_image_fst length_map set_map)

lemma join_loop_assemble:
  "distinct (map fst parts) \<Longrightarrow> join_loop parts 0 [] = assemble (map_of parts)"
proof -
  assume d: "distinct (map fst parts)"
  then have len: "length parts = card (dom (map_of parts))"
    by (rule length_parts_card)
  show ?thesis
  proof (cases "\<forall>j < length parts. map_of parts (int j) \<noteq> None")
    case True
    then have "join_loop parts 0 [] = [] @ concat (map (\<lambda>j. the (map_of parts (int j))) [0..<length parts])"
      by (intro join_loop_complete) simp
    with True len show ?thesis
      by (simp add: assemble_def)
  next
    case False
    then obtain j where j: "j < length parts" "map_of parts (int j) = None"
      by blast
    then have "join_loop parts 0 [] = []"
      by (intro join_loop_missing [of 0 j]) simp_all
    with j len show ?thesis
      by (auto simp: assemble_def)
  qed
qed

lemma reassemble_assemble:
  "reassemble lines = Returns (assemble ([0 \<mapsto> []] ++ map_of (rev (entries lines))))"
proof -
  have "distinct (map fst (foldl store_line [(0, [])] lines))"
    by (rule distinct_foldl_store) simp
  then have "join_loop (foldl store_line [(0, [])] lines) 0 []
               = assemble (map_of (foldl store_line [(0, [])] lines))"
    by (rule join_loop_assemble)
  then show ?thesis
    by (simp add: reassemble_eq map_of_foldl_store)
qed

subsection \<open>The runes of an index field\<close>

lemma decode_ascii: "byte c < RuneSelf \<Longrightarrow> DecodeRuneInString (c # cs) = (byte c, 1)"
  by (simp add: DecodeRuneInString_def)

lemma or_nat_ge1: "(a::nat) \<le> a OR b"
proof -
  have "int a \<le> int a OR int b"
    by (rule or_greater_eq) simp
  then have "int a \<le> int (a OR b)"
    by (simp add: of_nat_or_eq)
  then show ?thesis
    by simp
qed

lemma or_nat_ge2: "(b::nat) \<le> a OR b"
  using or_nat_ge1 [of b a] by (simp add: or.commute)

lemma and_low_bits: "(a::nat) AND 0x1F = a mod 32" "(a::nat) AND 0x0F = a mod 16"
  "(a::nat) AND 0x07 = a mod 8" "(a::nat) AND 0x3F = a mod 64"
proof -
  have *: "(a::nat) AND mask n = a mod 2 ^ n" for n
    by (simp add: take_bit_eq_mask [symmetric] take_bit_eq_mod)
  show "a AND 0x1F = a mod 32"
    using * [of 5] by (simp add: mask_eq_exp_minus_1)
  show "a AND 0x0F = a mod 16"
    using * [of 4] by (simp add: mask_eq_exp_minus_1)
  show "a AND 0x07 = a mod 8"
    using * [of 3] by (simp add: mask_eq_exp_minus_1)
  show "a AND 0x3F = a mod 64"
    using * [of 6] by (simp add: mask_eq_exp_minus_1)
qed

lemma mod_window: "q * k \<le> b \<Longrightarrow> b < q * k + k \<Longrightarrow> (b::nat) mod k = b - q * k"
proof -
  assume lo: "q * k \<le> b" and hi: "b < q * k + k"
  then have "b = (b - q * k) + q * k"
    by simp
  then have "b mod k = ((b - q * k) + q * k) mod k"
    by simp
  also have "\<dots> = (b - q * k) mod k"
    by (rule mod_mult_self1 [of "b - q * k" q k, simplified mult.commute [of k q]])
  also have "\<dots> = b - q * k"
    using lo hi by (intro mod_less) simp
  finally show ?thesis .
qed

lemma first_byte_cases:
  assumes "first_byte b = Some (sz, lo, hi)"
  shows "(sz = 2 \<and> 1 \<le> b mod 32) \<or> (sz = 3 \<and> (1 \<le> b mod 16 \<or> lo = 0xA0))
          \<or> (sz = 4 \<and> (1 \<le> b mod 8 \<or> lo = 0x90))"
    and "hi \<le> 0xBF"
proof -
  have m32: "1 \<le> b mod 32" if "0xC2 \<le> b" "b \<le> 0xDF"
    using that mod_window [of 6 32 b] by simp
  have m16: "1 \<le> b mod 16" if "0xE1 \<le> b" "b \<le> 0xEF"
    using that mod_window [of 14 16 b] by simp
  have m8: "1 \<le> b mod 8" if "0xF1 \<le> b" "b \<le> 0xF4"
    using that mod_window [of 30 8 b] by simp
  from assms m32 m16 m8
  show "(sz = 2 \<and> 1 \<le> b mod 32) \<or> (sz = 3 \<and> (1 \<le> b mod 16 \<or> lo = 0xA0))
          \<or> (sz = 4 \<and> (1 \<le> b mod 8 \<or> lo = 0x90))"
    by (simp add: first_byte_def locb_def hicb_def split: if_splits)
  from assms show "hi \<le> 0xBF"
    by (simp add: first_byte_def locb_def hicb_def split: if_splits)
qed

lemma push_or_ge_64: "1 \<le> x \<Longrightarrow> 6 \<le> n \<Longrightarrow> (64::nat) \<le> push_bit n x OR y"
proof -
  assume x: "1 \<le> x" and n: "6 \<le> n"
  have "(2::nat) ^ 6 \<le> 2 ^ n"
    using n by (intro power_increasing) simp_all
  then have "64 \<le> 1 * (2::nat) ^ n"
    by simp
  also have "\<dots> \<le> x * 2 ^ n"
    using x by (intro mult_le_mono1)
  also have "\<dots> = push_bit n x"
    by (simp add: push_bit_nat_def)
  also have "\<dots> \<le> push_bit n x OR y"
    by (rule or_nat_ge1)
  finally show ?thesis .
qed

lemma or_ge_64: "(64::nat) \<le> y \<Longrightarrow> 64 \<le> x OR y"
  using or_nat_ge2 [of y x] by simp

lemma decode_high: "RuneSelf \<le> byte c \<Longrightarrow> 64 \<le> fst (DecodeRuneInString (c # cs))"
proof (cases "first_byte (byte c)")
  case None
  assume "RuneSelf \<le> byte c"
  with None show ?thesis
    by (simp add: DecodeRuneInString_def RuneError_def)
next
  case (Some t)
  assume hi: "RuneSelf \<le> byte c"
  obtain sz lo hi where t: "t = (sz, lo, hi)"
    by (cases t)
  define s0 where "s0 = byte c"
  define s1 where "s1 = byte (cs ! 0)"
  define s2 where "s2 = byte (cs ! 1)"
  define s3 where "s3 = byte (cs ! 2)"
  from Some t have fb: "first_byte s0 = Some (sz, lo, hi)"
    by (simp add: s0_def)
  note kinds = first_byte_cases(1) [OF fb] and hib = first_byte_cases(2) [OF fb]
  have s1: "1 \<le> s1 mod 64" if "\<not> (s1 < lo \<or> hi < s1)" "lo = 0xA0 \<or> lo = 0x90"
    using that hib mod_window [of 2 64 s1] by auto
  have two: "64 \<le> push_bit 6 (s0 AND 0x1F) OR (s1 AND 0x3F)" if "sz = 2"
    using kinds that by (intro push_or_ge_64) (simp_all add: and_low_bits)
  have three: "64 \<le> push_bit 12 (s0 AND 0x0F) OR push_bit 6 (s1 AND 0x3F) OR (s2 AND 0x3F)"
    if "sz = 3" "\<not> (s1 < lo \<or> hi < s1)"
  proof (cases "1 \<le> s0 mod 16")
    case True
    then show ?thesis
      by (intro push_or_ge_64) (simp_all add: and_low_bits)
  next
    case False
    with kinds that have "1 \<le> s1 mod 64"
      by (intro s1) auto
    then show ?thesis
      by (intro or_ge_64 push_or_ge_64) (simp_all add: and_low_bits)
  qed
  have four: "64 \<le> push_bit 18 (s0 AND 0x07) OR push_bit 12 (s1 AND 0x3F)
                 OR push_bit 6 (s2 AND 0x3F) OR (s3 AND 0x3F)"
    if "sz = 4" "\<not> (s1 < lo \<or> hi < s1)"
  proof (cases "1 \<le> s0 mod 8")
    case True
    then show ?thesis
      by (intro push_or_ge_64) (simp_all add: and_low_bits)
  next
    case False
    with kinds that have "1 \<le> s1 mod 64"
      by (intro s1) auto
    then show ?thesis
      by (intro or_ge_64 push_or_ge_64) (simp_all add: and_low_bits)
  qed
  from kinds have sz: "sz = 2 \<or> sz = 3 \<or> sz = 4"
    by blast
  have "DecodeRuneInString (c # cs) =
      (if length (c # cs) < sz then (RuneError, 1)
       else if s1 < lo \<or> hi < s1 then (RuneError, 1)
       else if sz \<le> 2 then (push_bit 6 (s0 AND 0x1F) OR (s1 AND 0x3F), 2)
       else if s2 < locb \<or> hicb < s2 then (RuneError, 1)
       else if sz \<le> 3 then
         (push_bit 12 (s0 AND 0x0F) OR push_bit 6 (s1 AND 0x3F) OR (s2 AND 0x3F), 3)
       else if s3 < locb \<or> hicb < s3 then (RuneError, 1)
       else (push_bit 18 (s0 AND 0x07) OR push_bit 12 (s1 AND 0x3F)
               OR push_bit 6 (s2 AND 0x3F) OR (s3 AND 0x3F), 4))"
    using hi fb unfolding DecodeRuneInString_def Let_def s0_def s1_def s2_def s3_def
    by simp
  with two three four sz show ?thesis
    by (auto simp: RuneError_def)
qed

subsection \<open>What \<open>getIndexInt\<close> returns\<close>

lemma digit_rune_range: "digit_rune r = (0x30 \<le> r \<and> r \<le> 0x39)"
  unfolding digit_rune_def by (simp, arith)

lemma byte_eq_iff: "(byte c = of_char d) = (c = d)"
  by (simp add: byte_def)

lemma digit_rune_byte: "digit_rune (byte c) = (c \<in> set ''0123456789'')"
proof -
  have "digit_rune (byte c) =
      (byte c = of_char CHR ''0'' \<or> byte c = of_char CHR ''1'' \<or> byte c = of_char CHR ''2''
       \<or> byte c = of_char CHR ''3'' \<or> byte c = of_char CHR ''4'' \<or> byte c = of_char CHR ''5''
       \<or> byte c = of_char CHR ''6'' \<or> byte c = of_char CHR ''7'' \<or> byte c = of_char CHR ''8''
       \<or> byte c = of_char CHR ''9'')"
    by (simp add: digit_rune_def)
  also have "\<dots> = (c \<in> set ''0123456789'')"
    unfolding byte_eq_iff by simp
  finally show ?thesis .
qed

lemma getIndexInt_loop_Nil: "getIndexInt_loop n [] = n"
  by (subst getIndexInt_loop.simps) simp

lemma getIndexInt_loop_ascii:
  "byte c < RuneSelf \<Longrightarrow>
     getIndexInt_loop n (c # cs)
       = (if c \<in> set ''0123456789'' then getIndexInt_loop (n * 10 + of_nat (byte c - 0x30)) cs
          else - 1)"
  by (subst getIndexInt_loop.simps) (simp only: decode_ascii digit_rune_byte [symmetric], simp)

lemma getIndexInt_loop_high: "RuneSelf \<le> byte c \<Longrightarrow> getIndexInt_loop n (c # cs) = - 1"
proof -
  assume "RuneSelf \<le> byte c"
  then have "64 \<le> fst (DecodeRuneInString (c # cs))"
    by (rule decode_high)
  then have "\<not> digit_rune (fst (DecodeRuneInString (c # cs)))"
    by (simp add: digit_rune_range)
  then show ?thesis
    by (subst getIndexInt_loop.simps) (cases "DecodeRuneInString (c # cs)", simp)
qed

lemma getIndexInt_loop_nondigit:
  "\<exists>c\<in>set s. c \<notin> set ''0123456789'' \<Longrightarrow> getIndexInt_loop n s = - 1"
proof (induction s arbitrary: n)
  case Nil
  then show ?case by simp
next
  case (Cons c cs)
  show ?case
  proof (cases "byte c < RuneSelf")
    case True
    show ?thesis
    proof (cases "c \<in> set ''0123456789''")
      case digit: True
      with Cons.prems have "\<exists>c\<in>set cs. c \<notin> set ''0123456789''"
        by auto
      then have "getIndexInt_loop (n * 10 + of_nat (byte c - 0x30)) cs = - 1"
        by (rule Cons.IH)
      with True digit show ?thesis
        by (simp only: getIndexInt_loop_ascii if_True)
    next
      case False
      with True show ?thesis
        by (simp only: getIndexInt_loop_ascii if_False)
    qed
  next
    case False
    then show ?thesis
      by (simp add: getIndexInt_loop_high)
  qed
qed

lemma getIndexInt_nondigit:
  "\<exists>c\<in>set (TrimSpace s). c \<notin> set ''0123456789'' \<Longrightarrow> getIndexInt s = - 1"
  by (simp add: getIndexInt_def getIndexInt_loop_nondigit)


subsection \<open>The map that \<open>reassemble\<close> builds\<close>

lemma Split_first: "Split s sep ! 0 = takeWhile (\<lambda>c. c \<noteq> sep) s"
proof (cases "sep \<in> set s")
  case True
  then show ?thesis
    by (subst Split.simps) simp
next
  case False
  then have "\<forall>c\<in>set s. c \<noteq> sep"
    by blast
  then have "takeWhile (\<lambda>c. c \<noteq> sep) s = s"
    by (simp only: takeWhile_eq_all_conv)
  moreover have "Split s sep = [s]"
    using False by (rule Split_no_sep)
  ultimately show ?thesis
    by (simp only: nth_Cons_0)
qed

lemma colon_count_not_accepted: "count_list l CHR '':'' \<noteq> 1 \<Longrightarrow> \<not> accepted l"
  by (simp add: accepted_def length_Split)

lemma nondigit_not_accepted:
  assumes "\<exists>c\<in>set (TrimSpace (takeWhile (\<lambda>c. c \<noteq> CHR '':'') l)). c \<notin> set ''0123456789''"
  shows "\<not> accepted l"
proof
  assume a: "accepted l"
  from assms have "getIndexInt (Split l CHR '':'' ! 0) = - 1"
    unfolding Split_first by (rule getIndexInt_nondigit)
  with a show False
    by (simp add: accepted_def frame_index_def)
qed

lemma entries_shuffles:
  assumes "\<forall>l\<in>set junk. \<not> accepted l" and "all \<in> shuffles lines junk"
  shows "entries all = entries lines"
proof -
  have "filter accepted all \<in> filter accepted ` shuffles lines junk"
    using assms(2) by (rule imageI)
  also have "\<dots> = shuffles (filter accepted lines) (filter accepted junk)"
    by (rule filter_shuffles)
  also have "filter accepted junk = []"
    using assms(1) by (simp add: filter_empty_conv)
  finally have "filter accepted all = filter accepted lines"
    by simp
  then show ?thesis
    by (simp add: entries_def)
qed

lemma skipped_lines_ignored:
  assumes "\<forall>l\<in>set junk. \<not> accepted l" and "all \<in> shuffles lines junk"
  shows "reassemble all = reassemble lines"
proof -
  from assms have "entries all = entries lines"
    by (rule entries_shuffles)
  then show ?thesis
    by (simp only: reassemble_assemble)
qed

lemma mset_entries: "mset lines' = mset lines \<Longrightarrow> mset (entries lines') = mset (entries lines)"
  by (simp add: entries_def)

lemma map_of_functional:
  assumes "\<forall>e\<in>set es. \<forall>e'\<in>set es. fst e = fst e' \<longrightarrow> snd e = snd e'"
  shows "(map_of es k = Some v) = ((k, v) \<in> set es)"
proof
  assume "map_of es k = Some v"
  then show "(k, v) \<in> set es"
    by (rule map_of_SomeD)
next
  assume in_es: "(k, v) \<in> set es"
  show "map_of es k = Some v"
  proof (cases "map_of es k")
    case None
    then have "k \<notin> fst ` set es"
      using map_of_eq_None_iff [of es k] by blast
    moreover from in_es have "fst (k, v) \<in> fst ` set es"
      by (rule imageI)
    ultimately show ?thesis
      by simp
  next
    case (Some v')
    then have "(k, v') \<in> set es"
      by (rule map_of_SomeD)
    from assms [rule_format, OF this in_es] have "v' = v"
      by simp
    with Some show ?thesis
      by simp
  qed
qed

lemma map_of_functional_cong:
  assumes "\<forall>e\<in>set es. \<forall>e'\<in>set es. fst e = fst e' \<longrightarrow> snd e = snd e'"
    and "set es' = set es"
  shows "map_of es' = map_of es"
proof (rule ext)
  fix k
  have f': "\<forall>e\<in>set es'. \<forall>e'\<in>set es'. fst e = fst e' \<longrightarrow> snd e = snd e'"
    unfolding assms(2) by (rule assms(1))
  show "map_of es' k = map_of es k"
  proof (cases "map_of es k")
    case None
    then have "k \<notin> fst ` set es"
      using map_of_eq_None_iff [of es k] by blast
    then have "k \<notin> fst ` set es'"
      unfolding assms(2) .
    then have "map_of es' k = None"
      using map_of_eq_None_iff [of es' k] by blast
    with None show ?thesis
      by simp
  next
    case (Some v)
    then have "(k, v) \<in> set es"
      by (rule map_of_SomeD)
    then have "(k, v) \<in> set es'"
      unfolding assms(2) .
    then have "map_of es' k = Some v"
      using map_of_functional [OF f', of k v] by blast
    with Some show ?thesis
      by simp
  qed
qed

subsection \<open>Contiguous sets of frames\<close>

lemma assemble_complete:
  "(\<And>j. j < n \<Longrightarrow> m (int j) \<noteq> None) \<Longrightarrow> card (dom m) = n \<Longrightarrow>
     assemble m = concat (map (\<lambda>j. the (m (int j))) [0..<n])"
  by (simp add: assemble_def)

lemma distinct_contiguous: "distinct (map fst (map (\<lambda>j. (int (b + j), ps ! j)) [0..<n]))"
proof -
  have "inj_on (\<lambda>j. int (b + j)) (set [0..<n])"
    by (rule inj_onI) simp
  then have "distinct (map (\<lambda>j. int (b + j)) [0..<n])"
    by (simp only: distinct_map distinct_upt simp_thms)
  then show ?thesis
    by (simp only: map_map comp_def fst_conv)
qed

lemma map_of_contiguous:
  "map_of (map (\<lambda>j. (int (b + j), ps ! j)) [0..<n]) k
     = (if int b \<le> k \<and> k < int (b + n) then Some (ps ! nat (k - int b)) else None)"
proof (cases "int b \<le> k \<and> k < int (b + n)")
  case True
  define j where "j = nat (k - int b)"
  with True have j: "j < n" "k = int (b + j)"
    by linarith+
  from j(1) have "j \<in> set [0..<n]"
    by simp
  then have "(\<lambda>j. (int (b + j), ps ! j)) j \<in> set (map (\<lambda>j. (int (b + j), ps ! j)) [0..<n])"
    unfolding set_map by (rule imageI)
  with distinct_contiguous
  have "map_of (map (\<lambda>j. (int (b + j), ps ! j)) [0..<n]) (int (b + j)) = Some (ps ! j)"
    by (rule map_of_is_SomeI)
  then have "map_of (map (\<lambda>j. (int (b + j), ps ! j)) [0..<n]) k = Some (ps ! nat (k - int b))"
    by (simp only: j(2) [symmetric]) (simp only: j_def)
  with True show ?thesis
    by (simp only: if_True simp_thms)
next
  case False
  have "k \<notin> fst ` set (map (\<lambda>j. (int (b + j), ps ! j)) [0..<n])"
  proof
    assume "k \<in> fst ` set (map (\<lambda>j. (int (b + j), ps ! j)) [0..<n])"
    then obtain j where "j < n" and "k = int (b + j)"
      unfolding set_map image_image fst_conv by auto
    with False show False
      by simp
  qed
  then have "map_of (map (\<lambda>j. (int (b + j), ps ! j)) [0..<n]) k = None"
    using map_of_eq_None_iff [of "map (\<lambda>j. (int (b + j), ps ! j)) [0..<n]" k] by blast
  with False show ?thesis
    by (simp only: if_False)
qed

lemma map_of_rev_contiguous:
  assumes "mset es = mset (map (\<lambda>j. (int (b + j), ps ! j)) [0..<n])"
  shows "map_of (rev es) = map_of (map (\<lambda>j. (int (b + j), ps ! j)) [0..<n])"
proof (rule map_of_functional_cong)
  let ?cs = "map (\<lambda>j. (int (b + j), ps ! j)) [0..<n]"
  show "\<forall>e\<in>set ?cs. \<forall>e'\<in>set ?cs. fst e = fst e' \<longrightarrow> snd e = snd e'"
  proof (intro ballI impI)
    fix e e'
    assume e: "e \<in> set ?cs" and e': "e' \<in> set ?cs" and k: "fst e = fst e'"
    from e have "(fst e, snd e) \<in> set ?cs"
      by (simp only: prod.collapse)
    moreover from e' have "(fst e, snd e') \<in> set ?cs"
      by (simp only: k prod.collapse)
    ultimately show "snd e = snd e'"
      using distinct_contiguous by (intro eq_key_imp_eq_value)
  qed
  from assms have "set es = set ?cs"
    by (rule mset_eq_setD)
  then show "set (rev es) = set ?cs"
    by (simp only: set_rev)
qed

lemma assemble_base0:
  assumes "mset es = mset (map (\<lambda>j. (int (0 + j), ps ! j)) [0..<length ps])"
  shows "assemble ([0 \<mapsto> []] ++ map_of (rev es)) = concat ps"
proof -
  define m where "m = [0 \<mapsto> []] ++ map_of (rev es)"
  have m: "m k = (if 0 \<le> k \<and> k < int (length ps) then Some (ps ! nat k)
                  else if k = 0 then Some [] else None)" for k
    unfolding m_def map_of_rev_contiguous [OF assms] map_add_def map_of_contiguous
    by simp
  show ?thesis
  proof (cases "ps = []")
    case True
    then have "dom m = {0}"
      by (auto simp: dom_def m)
    then have "card (dom m) = 1"
      by simp
    moreover have "m (int j) \<noteq> None" if "j < 1" for j
      using that by (simp add: m)
    ultimately have "assemble m = concat (map (\<lambda>j. the (m (int j))) [0..<1])"
      by (intro assemble_complete)
    with True show ?thesis
      by (simp add: m m_def [symmetric])
  next
    case False
    then have "dom m = {0..<int (length ps)}"
      by (auto simp: dom_def m)
    then have "card (dom m) = length ps"
      by simp
    moreover have "m (int j) \<noteq> None" if "j < length ps" for j
      using that by (simp add: m)
    ultimately have "assemble m = concat (map (\<lambda>j. the (m (int j))) [0..<length ps])"
      by (intro assemble_complete)
    also have "map (\<lambda>j. the (m (int j))) [0..<length ps] = map (\<lambda>j. ps ! j) [0..<length ps]"
      by (rule map_cong) (simp_all add: m)
    finally show ?thesis
      by (simp add: map_nth m_def [symmetric])
  qed
qed

lemma assemble_base1:
  assumes "mset es = mset (map (\<lambda>j. (int (1 + j), ps ! j)) [0..<length ps])"
  shows "assemble ([0 \<mapsto> []] ++ map_of (rev es)) = concat ps"
proof -
  define m where "m = [0 \<mapsto> []] ++ map_of (rev es)"
  have m: "m k = (if 1 \<le> k \<and> k < int (1 + length ps) then Some (ps ! nat (k - 1))
                  else if k = 0 then Some [] else None)" for k
    unfolding m_def map_of_rev_contiguous [OF assms] map_add_def map_of_contiguous
    by simp
  have "dom m = {0..<int (Suc (length ps))}"
    by (auto simp: dom_def m)
  then have "card (dom m) = Suc (length ps)"
    by simp
  moreover have "m (int j) \<noteq> None" if "j < Suc (length ps)" for j
    using that by (simp add: m)
  ultimately have "assemble m = concat (map (\<lambda>j. the (m (int j))) [0..<Suc (length ps)])"
    by (intro assemble_complete)
  also have "map (\<lambda>j. the (m (int j))) [0..<Suc (length ps)]
          = the (m (int 0)) # map (\<lambda>j. the (m (int (Suc j)))) [0..<length ps]"
    unfolding upt_conv_Cons [OF zero_less_Suc] map_Suc_upt [symmetric]
    by (simp only: list.map map_map comp_def)
  also have "map (\<lambda>j. the (m (int (Suc j)))) [0..<length ps] = map (\<lambda>j. ps ! j) [0..<length ps]"
    by (rule map_cong) (simp_all add: m)
  also have "the (m (int 0)) = []"
    by (simp add: m)
  finally show ?thesis
    by (simp add: map_nth m_def [symmetric])
qed

lemma entries_contiguous:
  assumes "\<forall>j<length fs. accepted (fs ! j) \<and> frame_index (fs ! j) = int (b + j)"
  shows "entries fs
           = map (\<lambda>j. (int (b + j), map frame_text fs ! j)) [0..<length (map frame_text fs)]"
proof -
  from assms have "\<forall>l\<in>set fs. accepted l"
    by (simp add: all_set_conv_all_nth)
  then have "filter accepted fs = fs"
    by (simp only: filter_id_conv)
  then have "entries fs = map (\<lambda>l. (frame_index l, frame_text l)) fs"
    by (simp only: entries_def)
  also have "\<dots> = map (\<lambda>l. (frame_index l, frame_text l)) (map (\<lambda>j. fs ! j) [0..<length fs])"
    by (simp only: map_nth)
  also have "\<dots> = map (\<lambda>j. (frame_index (fs ! j), frame_text (fs ! j))) [0..<length fs]"
    by (simp only: map_map comp_def)
  also have "\<dots> = map (\<lambda>j. (int (b + j), map frame_text fs ! j)) [0..<length fs]"
    using assms by (intro map_cong refl) simp
  finally show ?thesis
    by (simp only: length_map)
qed

lemma reassemble_contiguous:
  assumes "b = 0 \<or> b = 1"
    and "\<forall>j<length fs. accepted (fs ! j) \<and> frame_index (fs ! j) = int (b + j)"
    and "mset (filter accepted lines) = mset fs"
  shows "reassemble lines = Returns (concat (map frame_text fs))"
proof -
  from assms(2) have "\<forall>l\<in>set fs. accepted l"
    by (simp add: all_set_conv_all_nth)
  then have "filter accepted fs = fs"
    by (simp only: filter_id_conv)
  with assms(3) have "mset (entries lines) = mset (entries fs)"
    by (simp add: entries_def)
  then have es: "mset (entries lines)
      = mset (map (\<lambda>j. (int (b + j), map frame_text fs ! j)) [0..<length (map frame_text fs)])"
    by (simp only: entries_contiguous [OF assms(2)])
  from assms(1) have "assemble ([0 \<mapsto> []] ++ map_of (rev (entries lines))) = concat (map frame_text fs)"
  proof
    assume "b = 0"
    with es show ?thesis
      by (intro assemble_base0) simp
  next
    assume "b = 1"
    with es show ?thesis
      by (intro assemble_base1) simp
  qed
  then show ?thesis
    by (simp only: reassemble_assemble)
qed

section \<open>Facts about the encoder\<close>

lemma split_loop_frames_aux:
  assumes "split_loop c buf result n idx = Some y"
  shows "\<forall>res n'. y = Returns (res, n') \<longrightarrow>
       (\<exists>chunks. concat chunks = buf \<and> res = result @ frames idx chunks
          \<and> n' = n + sum_list (map length (frames idx chunks)))"
  apply (rule split_loop.raw_induct [where P = "\<lambda>c buf result n idx y.
      \<forall>res n'. y = Returns (res, n') \<longrightarrow>
       (\<exists>chunks. concat chunks = buf \<and> res = result @ frames idx chunks
          \<and> n' = n + sum_list (map length (frames idx chunks)))", OF _ assms])
  subgoal premises prems for loop c buf result n idx y
  proof (cases "0 < length buf")
    case False
    with prems(2) have "y = Returns (result, n)"
      by simp
    moreover have "concat [] = buf \<and> result = result @ frames idx []
                     \<and> n = n + sum_list (map length (frames idx []))"
      using False by simp
    ultimately show ?thesis
      by blast
  next
    case True
    define max0 where "max0 = (if 999 < length result then maxLineLength c - 5
                   else if 99 < length result then maxLineLength c - 4
                   else maxLineLength c - 3)"
    define max1 where "max1 = (if int (length buf) < max0 then int (length buf) else max0)"
    define line where "line = Sprintf_02d_s idx (take (nat max1) buf)"
    have body: "(if max1 < 0 \<or> int (length buf) < max1 then Some Panics
           else loop c (drop (nat max1) buf) (result @ [line]) (n + length line) (idx + 1))
          = Some y"
      using prems(2) unfolding max0_def max1_def line_def
      by (simp only: True if_True Let_def)
    show ?thesis
    proof (intro allI impI)
      fix res n'
      assume y: "y = Returns (res, n')"
      have ok: "\<not> (max1 < 0 \<or> int (length buf) < max1)"
      proof
        assume "max1 < 0 \<or> int (length buf) < max1"
        with body have "Some Panics = Some y"
          by (simp only: if_True)
        with y show False
          by simp
      qed
      with body have "loop c (drop (nat max1) buf) (result @ [line]) (n + length line) (idx + 1)
                        = Some y"
        by (simp only: if_False)
      from prems(1) [OF this, rule_format, OF y]
      obtain chunks where chunks: "concat chunks = drop (nat max1) buf"
        "res = (result @ [line]) @ frames (idx + 1) chunks"
        "n' = (n + length line) + sum_list (map length (frames (idx + 1) chunks))"
        by blast
      have "concat (take (nat max1) buf # chunks) = buf"
        using chunks(1) by simp
      moreover have "res = result @ frames idx (take (nat max1) buf # chunks)"
        unfolding chunks(2) frames.simps line_def by simp
      moreover have "n' = n + sum_list (map length (frames idx (take (nat max1) buf # chunks)))"
        unfolding chunks(3) frames.simps line_def by simp
      ultimately show "\<exists>chunks. concat chunks = buf \<and> res = result @ frames idx chunks
          \<and> n' = n + sum_list (map length (frames idx chunks))"
        by blast
    qed
  qed
  done

lemma split_frames:
  assumes "split c buf = Some (Returns (lines, n))"
  shows "\<exists>chunks. concat chunks = buf \<and> lines = frames 0 chunks
           \<and> n = sum_list (map length lines)"
  using split_loop_frames_aux [OF assms [unfolded split_def], rule_format, of lines n]
  by auto

lemma apply_option_bounds:
  "1 \<le> maxSize c \<and> maxSize c \<le> 65270 \<Longrightarrow>
     1 \<le> maxSize (apply_option opt c) \<and> maxSize (apply_option opt c) \<le> 65270"
  by (cases opt) simp_all

lemma apply_all_bounds:
  "1 \<le> maxSize c \<and> maxSize c \<le> 65270 \<Longrightarrow>
     1 \<le> maxSize (apply_all opts c) \<and> maxSize (apply_all opts c) \<le> 65270"
proof (induction opts c rule: apply_all.induct)
  case (1 c)
  then show ?case by simp
next
  case (2 opts c)
  then show ?case by simp
next
  case (3 opt opts c)
  then show ?case
    using apply_option_bounds [of c opt] by simp
qed

lemma configure_maxSize: "1 \<le> maxSize (configure opts) \<and> maxSize (configure opts) \<le> 65270"
  unfolding configure_def by (simp add: apply_all_bounds)


subsection \<open>Index prefixes\<close>

lemma digit_plain: "c \<in> set ''0123456789'' \<Longrightarrow> byte c < RuneSelf \<and> \<not> asciiSpace (byte c)"
proof -
  assume "c \<in> set ''0123456789''"
  then have "0x30 \<le> byte c \<and> byte c \<le> 0x39"
    by (simp only: digit_rune_byte [symmetric] digit_rune_range)
  then show ?thesis
    by (auto simp: RuneSelf_def asciiSpace_def)
qed

lemma byte_digit_char: "d < 10 \<Longrightarrow> byte (digit_char d) = 0x30 + d"
  by (simp add: byte_def digit_char_def)

lemma digit_char_digit: "d < 10 \<Longrightarrow> digit_char d \<in> set ''0123456789''"
proof -
  assume "d < 10"
  then have "digit_rune (byte (digit_char d))"
    by (simp add: byte_digit_char digit_rune_range)
  then show ?thesis
    by (simp only: digit_rune_byte)
qed

lemma decimal_digits: "set (decimal n) \<subseteq> set ''0123456789''"
proof (induction n rule: decimal.induct)
  case (1 n)
  show ?case
  proof (cases "n < 10")
    case True
    then have "decimal n = [digit_char n]"
      by (subst decimal.simps) simp
    with True show ?thesis
      using digit_char_digit [of n] by simp
  next
    case False
    then have "decimal n = decimal (n div 10) @ [digit_char (n mod 10)]"
      by (subst decimal.simps) simp
    moreover have "digit_char (n mod 10) \<in> set ''0123456789''"
      by (rule digit_char_digit) simp
    ultimately show ?thesis
      using "1.IH" [OF False] by simp
  qed
qed

lemma decimal_nonempty: "decimal n \<noteq> []"
  by (subst decimal.simps) simp

lemma decimal_value: "foldl (\<lambda>a c. a * 10 + (byte c - 0x30)) 0 (decimal n) = n"
proof (induction n rule: decimal.induct)
  case (1 n)
  show ?case
  proof (cases "n < 10")
    case True
    then have "decimal n = [digit_char n]"
      by (subst decimal.simps) simp
    with True show ?thesis
      by (simp add: byte_digit_char)
  next
    case False
    then have "decimal n = decimal (n div 10) @ [digit_char (n mod 10)]"
      by (subst decimal.simps) simp
    then show ?thesis
      using "1.IH" [OF False] by (simp add: byte_digit_char)
  qed
qed

lemma zeros_value:
  "foldl (\<lambda>a c. a * 10 + (byte c - 0x30)) 0 (replicate k CHR ''0'' @ s)
     = foldl (\<lambda>a c. a * 10 + (byte c - 0x30)) 0 s"
  by (induction k) (simp_all add: byte_def)

lemma getIndexInt_loop_digits:
  "set s \<subseteq> set ''0123456789'' \<Longrightarrow>
     getIndexInt_loop (of_nat a) s = of_nat (foldl (\<lambda>a c. a * 10 + (byte c - 0x30)) a s)"
proof (induction s arbitrary: a)
  case Nil
  show ?case
    by (simp add: getIndexInt_loop_Nil)
next
  case (Cons c cs)
  then have c: "c \<in> set ''0123456789''" and cs: "set cs \<subseteq> set ''0123456789''"
    by simp_all
  from c have "byte c < RuneSelf"
    by (simp only: digit_plain)
  then have "getIndexInt_loop (of_nat a) (c # cs)
               = getIndexInt_loop (of_nat a * 10 + of_nat (byte c - 0x30)) cs"
    using c by (simp only: getIndexInt_loop_ascii if_True)
  also have "of_nat a * 10 + of_nat (byte c - 0x30) = (of_nat (a * 10 + (byte c - 0x30)) :: 64 word)"
    by simp
  also have "getIndexInt_loop (of_nat (a * 10 + (byte c - 0x30))) cs
               = of_nat (foldl (\<lambda>a c. a * 10 + (byte c - 0x30)) (a * 10 + (byte c - 0x30)) cs)"
    using cs by (rule Cons.IH)
  finally show ?case
    by simp
qed

lemma TrimSpace_plain:
  assumes "s \<noteq> []" and "byte (hd s) < RuneSelf" and "\<not> asciiSpace (byte (hd s))"
    and "byte (last s) < RuneSelf" and "\<not> asciiSpace (byte (last s))"
  shows "TrimSpace s = s"
proof -
  from assms(1) obtain c cs where s: "s = c # cs"
    by (cases s) simp_all
  have "TrimSpace s = trim_stop s"
    using assms(2,3) unfolding s by (simp add: TrimSpace.simps)
  also have "\<dots> = s"
    using assms(1,4,5) by (subst trim_stop.simps) (simp add: Let_def)
  finally show ?thesis .
qed

lemma sint_of_nat_small: "n < 2 ^ 63 \<Longrightarrow> sint (of_nat n :: 64 word) = int n"
proof -
  assume "n < 2 ^ 63"
  then have "int n < 2 ^ 63"
    by (metis of_nat_less_iff of_nat_numeral of_nat_power)
  then have "signed_take_bit 63 (int n) = int n"
    by (intro signed_take_bit_int_eq_self) simp_all
  then show ?thesis
    by (simp add: signed_of_nat)
qed

lemma getIndexInt_digits:
  assumes "s \<noteq> []" and "set s \<subseteq> set ''0123456789''"
    and "foldl (\<lambda>a c. a * 10 + (byte c - 0x30)) 0 s < 2 ^ 63"
  shows "getIndexInt s = int (foldl (\<lambda>a c. a * 10 + (byte c - 0x30)) 0 s)"
proof -
  from assms(1,2) have "hd s \<in> set ''0123456789''" and "last s \<in> set ''0123456789''"
    by (meson hd_in_set last_in_set subsetD)+
  then have "TrimSpace s = s"
    using assms(1) by (intro TrimSpace_plain) (simp_all only: digit_plain simp_thms)
  moreover have "getIndexInt_loop (of_nat 0) s
                   = of_nat (foldl (\<lambda>a c. a * 10 + (byte c - 0x30)) 0 s)"
    using assms(2) by (rule getIndexInt_loop_digits)
  ultimately show ?thesis
    using assms(3) by (simp add: getIndexInt_def sint_of_nat_small)
qed

lemma Sprintf_frame:
  "\<exists>pre. Sprintf_02d_s idx s = pre @ CHR '':'' # s \<and> pre \<noteq> [] \<and> set pre \<subseteq> set ''0123456789''
         \<and> foldl (\<lambda>a c. a * 10 + (byte c - 0x30)) 0 pre = idx"
proof -
  define pre where "pre = replicate (2 - length (decimal idx)) CHR ''0'' @ decimal idx"
  have "Sprintf_02d_s idx s = pre @ CHR '':'' # s"
    by (simp add: Sprintf_02d_s_def pre_def Let_def)
  moreover have "pre \<noteq> []"
    by (simp add: pre_def decimal_nonempty)
  moreover have "set pre \<subseteq> set ''0123456789''"
    using decimal_digits [of idx] by (auto simp: pre_def)
  moreover have "foldl (\<lambda>a c. a * 10 + (byte c - 0x30)) 0 pre = idx"
    unfolding pre_def by (simp only: zeros_value decimal_value)
  ultimately show ?thesis
    by blast
qed

lemma frame_accepted:
  assumes "idx < 2 ^ 63" and "CHR '':'' \<notin> set s"
  shows "accepted (Sprintf_02d_s idx s)" and "frame_index (Sprintf_02d_s idx s) = int idx"
    and "Split (Sprintf_02d_s idx s) CHR '':'' ! 1 = s"
proof -
  obtain pre where pre: "Sprintf_02d_s idx s = pre @ CHR '':'' # s" "pre \<noteq> []"
    "set pre \<subseteq> set ''0123456789''" "foldl (\<lambda>a c. a * 10 + (byte c - 0x30)) 0 pre = idx"
    using Sprintf_frame by blast
  have "CHR '':'' \<notin> set pre"
    using pre(3) by auto
  then have sp: "Split (Sprintf_02d_s idx s) CHR '':'' = [pre, s]"
    using assms(2) by (simp add: pre(1) Split_at_sep Split_no_sep)
  have ix: "getIndexInt pre = int idx"
    using getIndexInt_digits [OF pre(2,3)] assms(1) by (simp only: pre(4))
  show "frame_index (Sprintf_02d_s idx s) = int idx"
    by (simp add: frame_index_def sp ix)
  then show "accepted (Sprintf_02d_s idx s)"
    by (simp add: accepted_def sp)
  show "Split (Sprintf_02d_s idx s) CHR '':'' ! 1 = s"
    by (simp add: sp)
qed

lemma length_frames: "length (frames idx chunks) = length chunks"
  by (induction chunks arbitrary: idx) simp_all

lemma nth_frames: "j < length chunks \<Longrightarrow> frames idx chunks ! j = Sprintf_02d_s (idx + j) (chunks ! j)"
proof (induction chunks arbitrary: idx j)
  case Nil
  then show ?case by simp
next
  case (Cons ch chs)
  show ?case
  proof (cases j)
    case 0
    then show ?thesis by simp
  next
    case (Suc k)
    with Cons.prems have "k < length chs"
      by simp
    then have "frames (Suc idx) chs ! k = Sprintf_02d_s (Suc idx + k) (chs ! k)"
      by (rule Cons.IH)
    with Suc show ?thesis
      by simp
  qed
qed

lemma frames_size: "length chunks \<le> sum_list (map length (frames idx chunks))"
proof (induction chunks arbitrary: idx)
  case Nil
  show ?case by simp
next
  case (Cons ch chs)
  obtain pre where "Sprintf_02d_s idx ch = pre @ CHR '':'' # ch"
    using Sprintf_frame by blast
  then have "1 \<le> length (Sprintf_02d_s idx ch)"
    by simp
  with Cons.IH [of "Suc idx"] show ?case
    by simp
qed

lemma frames_accepted:
  assumes "length chunks < 2 ^ 63" and "CHR '':'' \<notin> set (concat chunks)" and "j < length chunks"
  shows "accepted (frames 0 chunks ! j)" and "frame_index (frames 0 chunks ! j) = int j"
    and "Split (frames 0 chunks ! j) CHR '':'' ! 1 = chunks ! j"
proof -
  have f: "frames 0 chunks ! j = Sprintf_02d_s j (chunks ! j)"
    using nth_frames [OF assms(3), of 0] by simp
  have j: "j < 2 ^ 63"
    using assms(1,3) by simp
  have "chunks ! j \<in> set chunks"
    using assms(3) by (rule nth_mem)
  then have "set (chunks ! j) \<subseteq> set (concat chunks)"
    by auto
  with assms(2) have c: "CHR '':'' \<notin> set (chunks ! j)"
    by blast
  show "accepted (frames 0 chunks ! j)"
    unfolding f using j c by (rule frame_accepted)
  show "frame_index (frames 0 chunks ! j) = int j"
    unfolding f using j c by (rule frame_accepted)
  show "Split (frames 0 chunks ! j) CHR '':'' ! 1 = chunks ! j"
    unfolding f using j c by (rule frame_accepted)
qed

subsection \<open>What \<open>CreateRecord\<close> returns\<close>

lemma CreateRecord_success:
  assumes "CreateRecord s opts = Some (Returns (lines, None))"
  shows "\<exists>n. split (configure opts) s = Some (Returns (lines, n)) \<and> int n \<le> maxSize (configure opts)"
proof (cases "split (configure opts) s")
  case None
  with assms show ?thesis
    by (simp add: CreateRecord_def)
next
  case (Some y)
  show ?thesis
  proof (cases y)
    case Panics
    with Some assms show ?thesis
      by (simp add: CreateRecord_def)
  next
    case (Returns r)
    obtain ls n where r: "r = (ls, n)"
      by (cases r)
    with Some Returns assms show ?thesis
      by (simp add: CreateRecord_def split: if_splits)
  qed
qed

lemma encoded_frames:
  assumes "CreateRecord s opts = Some (Returns (lines, None))"
  shows "\<exists>chunks. concat chunks = s \<and> lines = frames 0 chunks \<and> length chunks < 2 ^ 63"
proof -
  from CreateRecord_success [OF assms]
  obtain n where n: "split (configure opts) s = Some (Returns (lines, n))"
    "int n \<le> maxSize (configure opts)"
    by blast
  from split_frames [OF n(1)]
  obtain chunks where c: "concat chunks = s" "lines = frames 0 chunks"
    "n = sum_list (map length lines)"
    by blast
  have "length chunks \<le> n"
    unfolding c(3) c(2) by (rule frames_size)
  also have "int n \<le> 65270"
    using n(2) configure_maxSize [of opts] by simp
  then have "n < 2 ^ 63"
    by simp
  finally have "length chunks < 2 ^ 63" .
  with c show ?thesis
    by blast
qed

lemma encoded_accepted:
  assumes "CreateRecord s opts = Some (Returns (lines, None))" and "CHR '':'' \<notin> set s"
  shows "\<forall>j<length lines. accepted (lines ! j) \<and> frame_index (lines ! j) = int (0 + j)"
    and "concat (map (\<lambda>l. Split l CHR '':'' ! 1) lines) = s"
proof -
  from encoded_frames [OF assms(1)]
  obtain chunks where c: "concat chunks = s" "lines = frames 0 chunks" "length chunks < 2 ^ 63"
    by blast
  have nc: "CHR '':'' \<notin> set (concat chunks)"
    using assms(2) unfolding c(1) .
  show "\<forall>j<length lines. accepted (lines ! j) \<and> frame_index (lines ! j) = int (0 + j)"
    unfolding c(2) length_frames using frames_accepted(1,2) [OF c(3) nc] by simp
  have "map (\<lambda>l. Split l CHR '':'' ! 1) lines = chunks"
  proof (rule nth_equalityI)
    show "length (map (\<lambda>l. Split l CHR '':'' ! 1) lines) = length chunks"
      by (simp add: c(2) length_frames)
  next
    fix j
    assume "j < length (map (\<lambda>l. Split l CHR '':'' ! 1) lines)"
    then have j: "j < length chunks"
      by (simp add: c(2) length_frames)
    then show "map (\<lambda>l. Split l CHR '':'' ! 1) lines ! j = chunks ! j"
      using frames_accepted(3) [OF c(3) nc j] by (simp add: c(2) length_frames)
  qed
  then show "concat (map (\<lambda>l. Split l CHR '':'' ! 1) lines) = s"
    by (simp only: c(1))
qed

lemma reassemble_gap:
  assumes "\<forall>l\<in>set ls. accepted l" and "frame_index ` set ls = int ` ({0..<k} - {i})"
    and "0 < i" and "Suc i < k"
  shows "reassemble ls = Returns []"
proof -
  define m where "m = [0 \<mapsto> []] ++ map_of (rev (entries ls))"
  from assms(1) have "filter accepted ls = ls"
    by (simp only: filter_id_conv)
  then have "fst ` set (rev (entries ls)) = frame_index ` set ls"
    by (simp add: entries_def image_image)
  then have "dom m = insert 0 (int ` ({0..<k} - {i}))"
    by (simp add: m_def dom_map_of_conv_image_fst assms(2))
  also have "int 0 \<in> int ` ({0..<k} - {i})"
    using assms(3,4) by (intro imageI) simp
  then have "insert 0 (int ` ({0..<k} - {i})) = int ` ({0..<k} - {i})"
    by auto
  finally have dom: "dom m = int ` ({0..<k} - {i})" .
  have "card (dom m) = card ({0..<k} - {i})"
    unfolding dom by (rule card_image) simp
  also have "\<dots> = k - 1"
    using assms(4) by (simp add: card_Diff_singleton)
  finally have "i < card (dom m)"
    using assms(4) by simp
  moreover have "int i \<notin> dom m"
    unfolding dom by auto
  then have "m (int i) = None"
    by blast
  ultimately have "assemble m = []"
    unfolding assemble_def by auto
  then show ?thesis
    by (simp only: reassemble_assemble m_def)
qed

lemma remove_nth_conv:
  "i < length xs \<Longrightarrow> take i xs @ drop (Suc i) xs = map (\<lambda>j. xs ! j) ([0..<i] @ [Suc i..<length xs])"
proof -
  assume i: "i < length xs"
  have "take i xs = take i (map (\<lambda>j. xs ! j) [0..<length xs])"
    by (simp only: map_nth)
  also have "\<dots> = map (\<lambda>j. xs ! j) [0..<i]"
    using i by (simp add: take_map)
  finally have t: "take i xs = map (\<lambda>j. xs ! j) [0..<i]" .
  have "drop (Suc i) xs = drop (Suc i) (map (\<lambda>j. xs ! j) [0..<length xs])"
    by (simp only: map_nth)
  also have "\<dots> = map (\<lambda>j. xs ! j) [Suc i..<length xs]"
    by (simp add: drop_map)
  finally have d: "drop (Suc i) xs = map (\<lambda>j. xs ! j) [Suc i..<length xs]" .
  show ?thesis
    by (simp only: t d map_append)
qed

text \<open>
  When \<open>split\<close> returns, \<open>CreateRecord\<close> compares the sum of the frame lengths with the
  budget; nothing is said here of the payloads and line lengths for which \<open>split\<close> does
  not return.
\<close>

lemma CreateRecord_when_split_returns:
  assumes "split (configure opts) jwt = Some (Returns (lines, n))"
  shows "n = sum_list (map length lines)
       \<and> (\<exists>chunks. concat chunks = jwt \<and> lines = frames 0 chunks)
       \<and> (maxSize (configure opts) < int (sum_list (map length lines))
            \<longrightarrow> CreateRecord jwt opts = Some (Returns ([], Some ErrInvalidInput)))
       \<and> (int (sum_list (map length lines)) \<le> maxSize (configure opts)
            \<longrightarrow> CreateRecord jwt opts = Some (Returns (lines, None)))"
proof -
  from split_frames [OF assms]
  obtain chunks where c: "concat chunks = jwt" "lines = frames 0 chunks"
    "n = sum_list (map length lines)"
    by blast
  have "CreateRecord jwt opts =
      (if maxSize (configure opts) < int n then Some (Returns ([], Some ErrInvalidInput))
       else Some (Returns (lines, None)))"
    by (simp add: CreateRecord_def assms)
  with c show ?thesis
    by auto
qed

section \<open>The claims\<close>

text \<open>
  Claim C8.  \<open>reassemble\<close> returns a string for every list of lines and never panics:
  the two index expressions \<open>segments[0]\<close> and \<open>segments[1]\<close> are only reached when
  \<open>segments\<close> has two elements.  When the second loop finds an index below \<open>len(parts)\<close>
  that is absent from \<open>parts\<close>, the string returned is the empty one.
\<close>

theorem reassemble_never_panics:
  "(\<exists>s. reassemble lines = Returns s) \<and>
   (\<forall>parts j. collect [(0, [])] lines = Returns parts \<longrightarrow> j < length parts \<longrightarrow>
        map_of parts (int j) = None \<longrightarrow> reassemble lines = Returns [])"
proof (intro conjI allI impI)
  show "\<exists>s. reassemble lines = Returns s"
    by (simp add: reassemble_eq)
next
  fix parts j
  assume "collect [(0, [])] lines = Returns parts" and "j < length parts"
    and "map_of parts (int j) = None"
  then show "reassemble lines = Returns []"
    by (simp add: reassemble_def join_loop_missing [of 0 j])
qed

theorem reassemble_never_panics_witness:
  "collect [(0, [])] [''00:header'', ''02:signature''] = Returns [(0, ''header''), (2, ''signature'')]
   \<and> (1::nat) < length [(0::int, ''header''), (2, ''signature'')]
   \<and> map_of [(0::int, ''header''), (2, ''signature'')] (int 1) = None
   \<and> reassemble [''00:header'', ''02:signature''] = Returns []"
proof -
  have c: "collect [(0, [])] [''00:header'', ''02:signature'']
             = Returns [(0, ''header''), (2, ''signature'')]"
    by code_simp
  have l: "(1::nat) < length [(0::int, ''header''), (2, ''signature'')]"
    by simp
  have m: "map_of [(0::int, ''header''), (2, ''signature'')] (int 1) = None"
    by simp
  from reassemble_never_panics [of "[''00:header'', ''02:signature'']"] c l m
  have "reassemble [''00:header'', ''02:signature''] = Returns []"
    by blast
  with c l m show ?thesis
    by blast
qed

text \<open>
  Claim C4.  With the line length 1, which \<open>WithMaxLineLength\<close> accepts, the slice
  expression \<open>buf[:max]\<close> of \<open>split\<close> is reached with \<open>max = -2\<close> and the encoder
  panics on the one-byte payload.
\<close>

theorem CreateRecord_panics_on_short_line:
  "CreateRecord ''a'' [Some (WithMaxLineLength 1)] = Some Panics"
  by code_simp



text \<open>
  Claim C3, as amended.  \<open>reassemble\<close> returns the same string for every order of the
  lines, provided that accepted lines with the same index carry the same payload.
\<close>

theorem reassemble_order_independent:
  assumes "mset lines' = mset lines"
    and "\<forall>l\<in>set lines. \<forall>l'\<in>set lines.
           accepted l \<and> accepted l' \<and> frame_index l = frame_index l' \<longrightarrow> frame_text l = frame_text l'"
  shows "reassemble lines' = reassemble lines"
proof -
  have fn: "\<forall>e\<in>set (rev (entries lines)). \<forall>e'\<in>set (rev (entries lines)).
              fst e = fst e' \<longrightarrow> snd e = snd e'"
  proof (intro ballI impI)
    fix e e'
    assume "e \<in> set (rev (entries lines))" and "e' \<in> set (rev (entries lines))"
    then obtain l l' where l: "l \<in> set lines" "accepted l" "e = (frame_index l, frame_text l)"
      and l': "l' \<in> set lines" "accepted l'" "e' = (frame_index l', frame_text l')"
      unfolding entries_def set_rev set_map set_filter by blast
    assume "fst e = fst e'"
    with l l' have "accepted l \<and> accepted l' \<and> frame_index l = frame_index l'"
      by simp
    with assms(2) [rule_format, OF l(1) l'(1)] have "frame_text l = frame_text l'"
      by simp
    with l l' show "snd e = snd e'"
      by simp
  qed
  have "mset (entries lines') = mset (entries lines)"
    using assms(1) by (rule mset_entries)
  then have "set (entries lines') = set (entries lines)"
    by (rule mset_eq_setD)
  then have "set (rev (entries lines')) = set (rev (entries lines))"
    by (simp only: set_rev)
  with fn have "map_of (rev (entries lines')) = map_of (rev (entries lines))"
    by (rule map_of_functional_cong)
  then show ?thesis
    by (simp only: reassemble_assemble)
qed

theorem reassemble_order_counterexample:
  "mset [''0:b'', ''0:a''] = mset [''0:a'', ''0:b'']
   \<and> reassemble [''0:a'', ''0:b''] = Returns ''b''
   \<and> reassemble [''0:b'', ''0:a''] = Returns ''a''"
proof -
  have "reassemble [''0:a'', ''0:b''] = Returns ''b''"
    by code_simp
  moreover have "reassemble [''0:b'', ''0:a''] = Returns ''a''"
    by code_simp
  ultimately show ?thesis
    by (simp add: add_mset_commute)
qed

theorem reassemble_order_independent_witness:
  "mset [''01:b'', ''00:a''] = mset [''00:a'', ''01:b'']
   \<and> reassemble [''01:b'', ''00:a''] = Returns ''ab''"
proof -
  have p: "mset [''01:b'', ''00:a''] = mset [''00:a'', ''01:b'']"
    by (simp add: add_mset_commute)
  have f: "\<forall>l\<in>set [''00:a'', ''01:b'']. \<forall>l'\<in>set [''00:a'', ''01:b''].
          accepted l \<and> accepted l' \<and> frame_index l = frame_index l' \<longrightarrow> frame_text l = frame_text l'"
    by code_simp
  have r: "reassemble [''00:a'', ''01:b''] = Returns ''ab''"
    by code_simp
  from reassemble_order_independent [OF p f] r
  have "reassemble [''01:b'', ''00:a''] = Returns ''ab''"
    by simp
  with p show ?thesis
    by blast
qed

text \<open>
  Claim C7.  A line whose index field is empty is not discarded, although the field is no
  number: \<open>getIndexInt\<close> returns 0 for it, the check \<open>n < 0\<close> lets the line pass, and its
  payload replaces the one stored at index 0.  Added to the complete set \<open>00:a\<close>, \<open>01:b\<close>,
  the line \<open>:x\<close> changes the result from \<open>ab\<close> to \<open>xb\<close>.
\<close>

theorem blank_index_line_changes_result:
  "getIndexInt [] = 0
   \<and> reassemble [''00:a'', ''01:b''] = Returns ''ab''
   \<and> reassemble [''00:a'', ''01:b'', '':x''] = Returns ''xb''"
proof -
  have "getIndexInt [] = 0"
    by code_simp
  moreover have "reassemble [''00:a'', ''01:b''] = Returns ''ab''"
    by code_simp
  moreover have "reassemble [''00:a'', ''01:b'', '':x''] = Returns ''xb''"
    by code_simp
  ultimately show ?thesis
    by blast
qed



text \<open>
  Claim C5.  With the line length 3 and the budget 10, both of which the options accept,
  \<open>split\<close> writes a frame without payload on every round, \<open>00:\<close> to \<open>99:\<close>, 300 bytes
  for a budget of 10, and its slice expression \<open>buf[:max]\<close> then panics with \<open>max = -1\<close>:
  \<open>CreateRecord\<close> never gets to compare the sum with \<open>maxSize\<close> and returns no
  \<open>ErrInvalidInput\<close>.
\<close>

theorem CreateRecord_panics_over_budget:
  "maxLineLength (configure [Some (WithMaxLineLength 3), Some (WithMaxSize 10)]) = 3
   \<and> maxSize (configure [Some (WithMaxLineLength 3), Some (WithMaxSize 10)]) = 10
   \<and> CreateRecord ''a'' [Some (WithMaxLineLength 3), Some (WithMaxSize 10)] = Some Panics"
proof -
  have "maxLineLength (configure [Some (WithMaxLineLength 3), Some (WithMaxSize 10)]) = 3"
    by code_simp
  moreover have "maxSize (configure [Some (WithMaxLineLength 3), Some (WithMaxSize 10)]) = 10"
    by code_simp
  moreover have "CreateRecord ''a'' [Some (WithMaxLineLength 3), Some (WithMaxSize 10)] = Some Panics"
    by code_simp
  ultimately show ?thesis
    by blast
qed

text \<open>
  Claim C1, as amended.  When \<open>CreateRecord\<close> succeeds on a string \<open>s\<close> that contains no
  colon, and no frame's payload begins or ends with white space (\<open>TrimSpace\<close> leaves the
  bytes after the colon as they are), \<open>reassemble\<close> applied to the lines returns \<open>s\<close>.
\<close>

theorem encode_reassemble_roundtrip:
  assumes "CreateRecord s opts = Some (Returns (lines, None))"
    and "CHR '':'' \<notin> set s"
    and "\<forall>l\<in>set lines. TrimSpace (Split l CHR '':'' ! 1) = Split l CHR '':'' ! 1"
  shows "reassemble lines = Returns s"
proof -
  note acc = encoded_accepted [OF assms(1,2)]
  from acc(1) have "\<forall>l\<in>set lines. accepted l"
    by (simp add: all_set_conv_all_nth)
  then have "filter accepted lines = lines"
    by (simp only: filter_id_conv)
  then have "mset (filter accepted lines) = mset lines"
    by simp
  with acc(1) have "reassemble lines = Returns (concat (map frame_text lines))"
    by (intro reassemble_contiguous [of 0]) simp_all
  also have "map frame_text lines = map (\<lambda>l. Split l CHR '':'' ! 1) lines"
    using assms(3) by (intro map_cong refl) (simp add: frame_text_def)
  finally show ?thesis
    by (simp only: acc(2))
qed

theorem encode_reassemble_roundtrip_witness:
  "CreateRecord ''header.payload.signature'' [Some (WithMaxLineLength 10)]
     = Some (Returns ([''00:header.'', ''01:payload'', ''02:.signat'', ''03:ure''], None))
   \<and> reassemble [''00:header.'', ''01:payload'', ''02:.signat'', ''03:ure'']
     = Returns ''header.payload.signature''"
proof -
  have c: "CreateRecord ''header.payload.signature'' [Some (WithMaxLineLength 10)]
     = Some (Returns ([''00:header.'', ''01:payload'', ''02:.signat'', ''03:ure''], None))"
    by code_simp
  have n: "CHR '':'' \<notin> set ''header.payload.signature''"
    by simp
  have t: "\<forall>l\<in>set [''00:header.'', ''01:payload'', ''02:.signat'', ''03:ure''].
             TrimSpace (Split l CHR '':'' ! 1) = Split l CHR '':'' ! 1"
    by code_simp
  from encode_reassemble_roundtrip [OF c n t] c show ?thesis
    by blast
qed

theorem encode_reassemble_counterexample:
  "CreateRecord ''a:b'' [] = Some (Returns ([''00:a:b''], None))
   \<and> reassemble [''00:a:b''] = Returns []
   \<and> CreateRecord '' a'' [] = Some (Returns ([''00: a''], None))
   \<and> reassemble [''00: a''] = Returns ''a''"
proof -
  have "CreateRecord ''a:b'' [] = Some (Returns ([''00:a:b''], None))"
    by code_simp
  moreover have "reassemble [''00:a:b''] = Returns []"
    by code_simp
  moreover have "CreateRecord '' a'' [] = Some (Returns ([''00: a''], None))"
    by code_simp
  moreover have "reassemble [''00: a''] = Returns ''a''"
    by code_simp
  ultimately show ?thesis
    by blast
qed

text \<open>
  Claim C2, as amended.  When \<open>CreateRecord\<close> succeeds on a string without a colon,
  removing one line that is neither the first nor the last makes \<open>reassemble\<close> return the
  empty string: \<open>i\<close> is the position of the line removed.
\<close>

theorem missing_inner_frame_detected:
  assumes "CreateRecord s opts = Some (Returns (lines, None))"
    and "CHR '':'' \<notin> set s"
    and "0 < i" and "Suc i < length lines"
  shows "reassemble (take i lines @ drop (Suc i) lines) = Returns []"
proof -
  note acc = encoded_accepted(1) [OF assms(1,2)]
  define js where "js = [0..<i] @ [Suc i..<length lines]"
  have rest: "take i lines @ drop (Suc i) lines = map (\<lambda>j. lines ! j) js"
    unfolding js_def using assms(4) by (intro remove_nth_conv) simp
  have js: "set js = {0..<length lines} - {i}"
    using assms(4) by (auto simp: js_def)
  have "\<forall>l\<in>set (map (\<lambda>j. lines ! j) js). accepted l"
    using acc by (simp add: js)
  moreover have "frame_index ` set (map (\<lambda>j. lines ! j) js) = int ` ({0..<length lines} - {i})"
  proof -
    have "frame_index ` set (map (\<lambda>j. lines ! j) js) = (\<lambda>j. frame_index (lines ! j)) ` set js"
      by (simp add: image_image)
    also have "\<dots> = int ` set js"
      using acc by (intro image_cong refl) (simp add: js)
    finally show ?thesis
      by (simp only: js)
  qed
  ultimately have "reassemble (map (\<lambda>j. lines ! j) js) = Returns []"
    using assms(3,4) by (rule reassemble_gap)
  then show ?thesis
    by (simp only: rest)
qed

theorem missing_inner_frame_detected_witness:
  "CreateRecord ''header.payload.signature'' [Some (WithMaxLineLength 10)]
     = Some (Returns ([''00:header.'', ''01:payload'', ''02:.signat'', ''03:ure''], None))
   \<and> reassemble [''00:header.'', ''02:.signat'', ''03:ure''] = Returns []"
proof -
  have c: "CreateRecord ''header.payload.signature'' [Some (WithMaxLineLength 10)]
     = Some (Returns ([''00:header.'', ''01:payload'', ''02:.signat'', ''03:ure''], None))"
    by code_simp
  have n: "CHR '':'' \<notin> set ''header.payload.signature''"
    by simp
  have i: "(0::nat) < 1" "Suc 1 < length [''00:header.'', ''01:payload'', ''02:.signat'', ''03:ure'']"
    by simp_all
  from missing_inner_frame_detected [OF c n i]
  have "reassemble [''00:header.'', ''02:.signat'', ''03:ure''] = Returns []"
    by simp
  with c show ?thesis
    by blast
qed

theorem missing_frame_counterexample:
  "CreateRecord ''abcd'' [Some (WithMaxLineLength 5)] = Some (Returns ([''00:ab'', ''01:cd''], None))
   \<and> reassemble [''00:ab''] = Returns ''ab''
   \<and> reassemble [''01:cd''] = Returns ''cd''"
proof -
  have "CreateRecord ''abcd'' [Some (WithMaxLineLength 5)]
          = Some (Returns ([''00:ab'', ''01:cd''], None))"
    by code_simp
  moreover have "reassemble [''00:ab''] = Returns ''ab''"
    by code_simp
  moreover have "reassemble [''01:cd''] = Returns ''cd''"
    by code_simp
  ultimately show ?thesis
    by blast
qed

end
